theory Spec2Isabelle
  imports Main "HOL-Library.Multiset"
begin

section \<open>ClatShield password generator\<close>

text \<open>
  A shallow embedding of \<^verbatim>\<open>ClatShield(1.00).py\<close>: the yes/no prompt, the search-space
  estimator and the password generator. Python's unbounded \<^verbatim>\<open>int\<close> is \<^typ>\<open>int\<close>, a
  \<^verbatim>\<open>str\<close> is a \<^typ>\<open>string\<close>, and each \<^verbatim>\<open>raise\<close> is a value of the type \<open>error\<close>.
  \<^verbatim>\<open>calculate_entropy\<close> computes in floating point and is not part of the embedding.

  The generator draws from the operating system's random source. The source is made an
  explicit argument: the list of raw numbers it will hand out, consumed from the left
  (the \<open>tape\<close>). A run that asks for more numbers than the tape holds ends in
  \<open>OutOfDraws\<close>; that is the model's way of saying "still running", since the rejection
  loop of the generator has no bound on the number of draws it makes.
\<close>

subsection \<open>Errors and outcomes\<close>

datatype error =
    LengthBelowOne              \<comment> \<open>\<^verbatim>\<open>ValueError("Password length must be at least 1.")\<close>\<close>
  | NoCharacterTypes            \<comment> \<open>\<^verbatim>\<open>ValueError("No character types selected. ...")\<close>\<close>
  | TooShortForCategories int nat
      \<comment> \<open>\<^verbatim>\<open>ValueError(f"Password length ({length}) is too short ... {len(pools)} ...")\<close>\<close>
  | IndexError                  \<comment> \<open>\<^verbatim>\<open>choice\<close> on an empty sequence\<close>

datatype 'a outcome = Returned 'a | Raised error | OutOfDraws

type_synonym tape = "nat list"

subsection \<open>The random source\<close>

text \<open>
  \<^verbatim>\<open>randbelow(n)\<close> of the standard library returns a number in \<open>[0, n)\<close>. The next raw
  number of the tape is reduced modulo \<open>n\<close>, so every tape is a legal run of the source
  and every value below \<open>n\<close> can be produced.
\<close>

fun randbelow :: "nat \<Rightarrow> tape \<Rightarrow> (nat \<times> tape) outcome" where
  "randbelow n [] = OutOfDraws"
| "randbelow n (r # rs) = Returned (r mod n, rs)"

text \<open>
  \<^verbatim>\<open>secrets.choice(seq)\<close>: \<^verbatim>\<open>IndexError\<close> on an empty sequence, otherwise
  \<^verbatim>\<open>seq[randbelow(len(seq))]\<close>.
\<close>

definition choice :: "'a list \<Rightarrow> tape \<Rightarrow> ('a \<times> tape) outcome" where
  "choice seq t =
     (if seq = [] then Raised IndexError
      else case randbelow (length seq) t of
             Returned (i, t') \<Rightarrow> Returned (seq ! i, t')
           | Raised e \<Rightarrow> Raised e
           | OutOfDraws \<Rightarrow> OutOfDraws)"

text \<open>
  \<^verbatim>\<open>SystemRandom().shuffle(x)\<close> of the standard library:
  \<^verbatim>\<open>for i in reversed(range(1, len(x))): j = randbelow(i + 1); x[i], x[j] = x[j], x[i]\<close>.
  \<open>shuffle_loop k\<close> runs the iterations \<open>i = k, k - 1, ..., 1\<close>.
\<close>

fun shuffle_loop :: "nat \<Rightarrow> 'a list \<Rightarrow> tape \<Rightarrow> ('a list \<times> tape) outcome" where
  "shuffle_loop 0 x t = Returned (x, t)"
| "shuffle_loop (Suc k) x t =
     (case randbelow (Suc k + 1) t of
        Returned (j, t') \<Rightarrow> shuffle_loop k (x[Suc k := x ! j, j := x ! Suc k]) t'
      | Raised e \<Rightarrow> Raised e
      | OutOfDraws \<Rightarrow> OutOfDraws)"

definition shuffle :: "'a list \<Rightarrow> tape \<Rightarrow> ('a list \<times> tape) outcome" where
  "shuffle x t = shuffle_loop (length x - 1) x t"

subsection \<open>Character classes\<close>

definition ascii_lowercase :: string where
  "ascii_lowercase = ''abcdefghijklmnopqrstuvwxyz''"

definition ascii_uppercase :: string where
  "ascii_uppercase = ''ABCDEFGHIJKLMNOPQRSTUVWXYZ''"

definition digits :: string where
  "digits = ''0123456789''"

text \<open>The special characters; the last one is the backslash (code 92).\<close>

definition special :: string where
  "special = ''!@#$%^&*()-_=+[]{}|;:,.<>?/'' @ [CHR 0x5C]"

text \<open>The list \<^verbatim>\<open>pools\<close> built by the four \<^verbatim>\<open>if use_...: pools.append(...)\<close>.\<close>

definition selected_pools :: "bool \<Rightarrow> bool \<Rightarrow> bool \<Rightarrow> bool \<Rightarrow> string list" where
  "selected_pools use_lower use_upper use_digits use_special =
     (if use_lower then [ascii_lowercase] else []) @
     (if use_upper then [ascii_uppercase] else []) @
     (if use_digits then [digits] else []) @
     (if use_special then [special] else [])"

subsection \<open>calculate_search_space_size\<close>

definition calculate_search_space_size :: "int \<Rightarrow> string \<Rightarrow> int" where
  "calculate_search_space_size len all_chars =
     (if all_chars = [] \<or> len \<le> 0 then 0
      else int (length all_chars) ^ nat len)"

subsection \<open>generate_random_password\<close>

text \<open>
  The seeding loop \<^verbatim>\<open>for pool in pools: password_chars.append(secrets.choice(pool))\<close>,
  with the list built so far as an argument.
\<close>

fun seed_chars :: "string list \<Rightarrow> string \<Rightarrow> tape \<Rightarrow> (string \<times> tape) outcome" where
  "seed_chars [] password_chars t = Returned (password_chars, t)"
| "seed_chars (pool # pools) password_chars t =
     (case choice pool t of
        Returned (c, t') \<Rightarrow> seed_chars pools (password_chars @ [c]) t'
      | Raised e \<Rightarrow> Raised e
      | OutOfDraws \<Rightarrow> OutOfDraws)"

text \<open>
  The body of the fill loop once \<^verbatim>\<open>new_char\<close> is drawn:
  \<^verbatim>\<open>if not password_chars or new_char != password_chars[-1]: password_chars.append(new_char)\<close>.
\<close>

definition append_unless_repeat :: "string \<Rightarrow> char \<Rightarrow> string" where
  "append_unless_repeat password_chars new_char =
     (if password_chars = [] \<or> new_char \<noteq> last password_chars
      then password_chars @ [new_char] else password_chars)"

text \<open>
  The fill loop \<^verbatim>\<open>while len(password_chars) < length: ...\<close>. Every iteration consumes one
  draw, so the recursion ends with the tape.
\<close>

function fill :: "int \<Rightarrow> string \<Rightarrow> string \<Rightarrow> tape \<Rightarrow> (string \<times> tape) outcome" where
  "fill len all_chars password_chars t =
     (if int (length password_chars) < len then
        (case choice all_chars t of
           Returned (new_char, t') \<Rightarrow>
             fill len all_chars (append_unless_repeat password_chars new_char) t'
         | Raised e \<Rightarrow> Raised e
         | OutOfDraws \<Rightarrow> OutOfDraws)
      else Returned (password_chars, t))"
  by pat_completeness auto
termination
proof (relation "measure (\<lambda>(len, all_chars, password_chars, t). length t)")
  fix len :: int and all_chars password_chars :: string and t t' :: tape
    and x :: "char \<times> tape" and new_char :: char
  assume "choice all_chars t = Returned x" and "(new_char, t') = x"
  then have "length t' < length t"
    by (cases t) (auto simp: choice_def split: if_splits)
  then show "((len, all_chars, append_unless_repeat password_chars new_char, t'),
              (len, all_chars, password_chars, t))
             \<in> measure (\<lambda>(len, all_chars, password_chars, t). length t)"
    by simp
qed simp

declare fill.simps [simp del]

text \<open>Everything before the final shuffle: the seeding (when required) and the fill loop.\<close>

definition assemble :: "int \<Rightarrow> string list \<Rightarrow> bool \<Rightarrow> tape \<Rightarrow> (string \<times> tape) outcome" where
  "assemble len pools require_each t =
     (case (if require_each then seed_chars pools [] t else Returned ([], t)) of
        Returned (password_chars, t') \<Rightarrow> fill len (concat pools) password_chars t'
      | Raised e \<Rightarrow> Raised e
      | OutOfDraws \<Rightarrow> OutOfDraws)"

definition generate_random_password ::
  "int \<Rightarrow> bool \<Rightarrow> bool \<Rightarrow> bool \<Rightarrow> bool \<Rightarrow> bool \<Rightarrow> tape \<Rightarrow> string outcome" where
  "generate_random_password len use_lower use_upper use_digits use_special require_each t =
     (if len < 1 then Raised LengthBelowOne
      else
        let pools = selected_pools use_lower use_upper use_digits use_special in
        if pools = [] then Raised NoCharacterTypes
        else if require_each \<and> len < int (length pools)
          then Raised (TooShortForCategories len (length pools))
        else
          (case assemble len pools require_each t of
             Returned (password_chars, t') \<Rightarrow>
               (case shuffle password_chars t' of
                  Returned (shuffled, t'') \<Rightarrow> Returned shuffled
                | Raised e \<Rightarrow> Raised e
                | OutOfDraws \<Rightarrow> OutOfDraws)
           | Raised e \<Rightarrow> Raised e
           | OutOfDraws \<Rightarrow> OutOfDraws))"

subsection \<open>get_bool_input and the flags read by main\<close>

text \<open>
  The line read by \<^verbatim>\<open>input(prompt)\<close> is an argument. A character is a code point below
  256; \<^verbatim>\<open>str.isspace\<close> and \<^verbatim>\<open>str.lower\<close> are written out for that range.
\<close>

definition isspace :: "char \<Rightarrow> bool" where
  "isspace c =
     (let n = (of_char c :: nat)
      in (9 \<le> n \<and> n \<le> 13) \<or> (28 \<le> n \<and> n \<le> 32) \<or> n = 133 \<or> n = 160)"

definition strip :: "string \<Rightarrow> string" where
  "strip s = rev (dropWhile isspace (rev (dropWhile isspace s)))"

definition lower_char :: "char \<Rightarrow> char" where
  "lower_char c =
     (let n = (of_char c :: nat)
      in if (65 \<le> n \<and> n \<le> 90) \<or> (192 \<le> n \<and> n \<le> 222 \<and> n \<noteq> 215)
         then char_of (n + 32) else c)"

definition lower :: "string \<Rightarrow> string" where
  "lower s = map lower_char s"

definition get_bool_input :: "string \<Rightarrow> bool \<Rightarrow> string \<Rightarrow> bool" where
  "get_bool_input prompt dflt line =
     (let answer = lower (strip line)
      in if answer \<in> set [''y'', ''yes''] then True
         else if answer \<in> set [''n'', ''no''] then False
         else dflt)"

record flags =
  include_lower :: bool
  include_upper :: bool
  include_digits :: bool
  include_special :: bool
  require_each :: bool

text \<open>The five prompts of one round of \<^verbatim>\<open>main\<close>, given the five lines typed.\<close>

definition read_flags :: "string \<Rightarrow> string \<Rightarrow> string \<Rightarrow> string \<Rightarrow> string \<Rightarrow> flags" where
  "read_flags l1 l2 l3 l4 l5 =
     \<lparr> include_lower = get_bool_input ''Include lowercase letters (a-z)? (y/n): '' True l1,
       include_upper = get_bool_input ''Include uppercase letters (A-Z)? (y/n): '' True l2,
       include_digits = get_bool_input ''Include numbers (0-9)? (y/n): '' True l3,
       include_special = get_bool_input ''Include special characters? (y/n): '' True l4,
       require_each =
         get_bool_input ''Require at least one of each chosen category? (y/n): '' False l5 \<rparr>"

section \<open>Properties of the parts\<close>

subsection \<open>Drawing a character\<close>

lemma choice_Returned:
  "choice seq t = Returned (c, t') \<Longrightarrow> c \<in> set seq \<and> (\<exists>r. t = r # t')"
  by (cases t) (auto simp: choice_def split: if_splits)

lemma choice_Cons:
  "seq \<noteq> [] \<Longrightarrow> choice seq (r # rs) = Returned (seq ! (r mod length seq), rs)"
  by (simp add: choice_def)

lemma choice_Nil: "seq \<noteq> [] \<Longrightarrow> choice seq [] = OutOfDraws"
  by (simp add: choice_def)

lemma choice_not_Raised: "seq \<noteq> [] \<Longrightarrow> choice seq t \<noteq> Raised e"
  by (cases t) (simp_all add: choice_def)

lemma choice_frame:
  "choice seq t = Returned (c, t') \<Longrightarrow> choice seq (t @ e) = Returned (c, t' @ e)"
  by (cases t) (auto simp: choice_def split: if_splits)

subsection \<open>The seeding loop\<close>

lemma seed_chars_Returned:
  "seed_chars pools cs t = Returned (cs', t') \<Longrightarrow>
     \<exists>reps. cs' = cs @ reps \<and> list_all2 (\<lambda>c pool. c \<in> set pool) reps pools \<and>
            t' = drop (length pools) t \<and> length pools \<le> length t"
proof (induction pools arbitrary: cs t)
  case Nil
  then show ?case by simp
next
  case (Cons pool pools)
  from Cons.prems obtain c t1 where c: "choice pool t = Returned (c, t1)"
    and rest: "seed_chars pools (cs @ [c]) t1 = Returned (cs', t')"
    by (auto split: outcome.splits)
  from choice_Returned [OF c] obtain r where r: "c \<in> set pool" "t = r # t1" by blast
  from Cons.IH [OF rest] obtain reps where
    "cs' = (cs @ [c]) @ reps" "list_all2 (\<lambda>c pool. c \<in> set pool) reps pools"
    "t' = drop (length pools) t1" "length pools \<le> length t1" by blast
  with r have "cs' = cs @ (c # reps) \<and> list_all2 (\<lambda>c pool. c \<in> set pool) (c # reps) (pool # pools) \<and>
            t' = drop (length (pool # pools)) t \<and> length (pool # pools) \<le> length t"
    by simp
  then show ?case by blast
qed

lemma seed_chars_returns:
  "\<forall>pool \<in> set pools. pool \<noteq> [] \<Longrightarrow> length pools \<le> length t \<Longrightarrow>
     \<exists>cs'. seed_chars pools cs t = Returned (cs', drop (length pools) t)"
proof (induction pools arbitrary: cs t)
  case Nil
  then show ?case by simp
next
  case (Cons pool pools)
  then obtain r rs where t: "t = r # rs" by (cases t) auto
  with Cons.prems have "pool \<noteq> []" "\<forall>pool \<in> set pools. pool \<noteq> []" "length pools \<le> length rs"
    by auto
  with Cons.IH [of rs "cs @ [pool ! (r mod length pool)]"] t show ?case
    by (auto simp: choice_Cons)
qed

lemma seed_chars_not_Raised:
  "\<forall>pool \<in> set pools. pool \<noteq> [] \<Longrightarrow> seed_chars pools cs t \<noteq> Raised e"
  by (induction pools arbitrary: cs t) (auto simp: choice_not_Raised split: outcome.splits)

lemma seed_chars_frame:
  "seed_chars pools cs t = Returned (cs', t') \<Longrightarrow>
   seed_chars pools cs (t @ e) = Returned (cs', t' @ e)"
  by (induction pools arbitrary: cs t) (auto simp: choice_frame split: outcome.splits)

subsection \<open>The fill loop\<close>

lemma length_append_unless_repeat:
  "length (append_unless_repeat cs c) = length cs \<or>
   length (append_unless_repeat cs c) = Suc (length cs)"
  by (simp add: append_unless_repeat_def)

lemma distinct_adj_append_unless_repeat:
  "distinct_adj cs \<Longrightarrow> distinct_adj (append_unless_repeat cs c)"
  by (auto simp: append_unless_repeat_def distinct_adj_append_iff)

lemma append_unless_repeat_prefix:
  "\<exists>ys. append_unless_repeat cs c = cs @ ys \<and> set ys \<subseteq> {c}"
  by (simp add: append_unless_repeat_def)

lemma fill_length:
  "fill len all_chars cs t = Returned (cs', t') \<Longrightarrow> int (length cs) \<le> len \<Longrightarrow>
   int (length cs') = len"
proof (induction len all_chars cs t rule: fill.induct)
  case (1 len all_chars cs t)
  show ?case
  proof (cases "int (length cs) < len")
    case True
    with "1.prems"(1) obtain c t1 where c: "choice all_chars t = Returned (c, t1)"
      and rest: "fill len all_chars (append_unless_repeat cs c) t1 = Returned (cs', t')"
      by (subst (asm) fill.simps) (auto split: outcome.splits)
    from True length_append_unless_repeat [of cs c]
    have "int (length (append_unless_repeat cs c)) \<le> len" by auto
    from "1.IH" [OF True c refl rest this] show ?thesis .
  next
    case False
    with "1.prems" show ?thesis by (subst (asm) fill.simps) simp
  qed
qed

lemma fill_distinct_adj:
  "fill len all_chars cs t = Returned (cs', t') \<Longrightarrow> distinct_adj cs \<Longrightarrow> distinct_adj cs'"
proof (induction len all_chars cs t rule: fill.induct)
  case (1 len all_chars cs t)
  show ?case
  proof (cases "int (length cs) < len")
    case True
    with "1.prems"(1) obtain c t1 where c: "choice all_chars t = Returned (c, t1)"
      and rest: "fill len all_chars (append_unless_repeat cs c) t1 = Returned (cs', t')"
      by (subst (asm) fill.simps) (auto split: outcome.splits)
    from "1.IH" [OF True c refl rest] "1.prems"(2) show ?thesis
      by (simp add: distinct_adj_append_unless_repeat)
  next
    case False
    with "1.prems" show ?thesis by (subst (asm) fill.simps) simp
  qed
qed

lemma fill_prefix:
  "fill len all_chars cs t = Returned (cs', t') \<Longrightarrow>
   \<exists>ys. cs' = cs @ ys \<and> set ys \<subseteq> set all_chars"
proof (induction len all_chars cs t rule: fill.induct)
  case (1 len all_chars cs t)
  show ?case
  proof (cases "int (length cs) < len")
    case True
    with "1.prems"(1) obtain c t1 where c: "choice all_chars t = Returned (c, t1)"
      and rest: "fill len all_chars (append_unless_repeat cs c) t1 = Returned (cs', t')"
      by (subst (asm) fill.simps) (auto split: outcome.splits)
    from "1.IH" [OF True c refl rest] obtain ys where
      ys: "cs' = append_unless_repeat cs c @ ys" "set ys \<subseteq> set all_chars" by blast
    from append_unless_repeat_prefix [of cs c] obtain zs where
      zs: "append_unless_repeat cs c = cs @ zs" "set zs \<subseteq> {c}" by blast
    from choice_Returned [OF c] have "c \<in> set all_chars" by simp
    with ys zs have "cs' = cs @ (zs @ ys) \<and> set (zs @ ys) \<subseteq> set all_chars" by auto
    then show ?thesis by blast
  next
    case False
    with "1.prems" show ?thesis by (subst (asm) fill.simps) simp
  qed
qed

lemma fill_done:
  "\<not> int (length cs) < len \<Longrightarrow> fill len all_chars cs t = Returned (cs, t)"
  by (subst fill.simps) simp

lemma fill_draw:
  "int (length cs) < len \<Longrightarrow> all_chars \<noteq> [] \<Longrightarrow>
   fill len all_chars cs (r # rs) =
     fill len all_chars (append_unless_repeat cs (all_chars ! (r mod length all_chars))) rs"
  by (subst fill.simps) (simp add: choice_Cons)

lemma fill_frame:
  "fill len all_chars cs t = Returned (cs', t') \<Longrightarrow>
   fill len all_chars cs (t @ e) = Returned (cs', t' @ e)"
proof (induction len all_chars cs t rule: fill.induct)
  case (1 len all_chars cs t)
  show ?case
  proof (cases "int (length cs) < len")
    case True
    with "1.prems"(1) obtain c t1 where c: "choice all_chars t = Returned (c, t1)"
      and rest: "fill len all_chars (append_unless_repeat cs c) t1 = Returned (cs', t')"
      by (subst (asm) fill.simps) (auto split: outcome.splits)
    from "1.IH" [OF True c refl rest] True choice_frame [OF c, of e] show ?thesis
      by (subst fill.simps) simp
  next
    case False
    with "1.prems" show ?thesis by (simp add: fill_done)
  qed
qed

lemma fill_not_Raised:
  "all_chars \<noteq> [] \<Longrightarrow> fill len all_chars cs t \<noteq> Raised e"
proof (induction len all_chars cs t rule: fill.induct)
  case (1 len all_chars cs t)
  show ?case
  proof (cases "int (length cs) < len")
    case True
    show ?thesis
    proof (cases t)
      case Nil
      with True "1.prems" show ?thesis by (subst fill.simps) (simp add: choice_Nil)
    next
      case (Cons r rs)
      with True "1.prems" "1.IH" [OF True, of "(all_chars ! (r mod length all_chars), rs)"]
      show ?thesis by (subst fill.simps) (simp add: choice_Cons)
    qed
  next
    case False
    then show ?thesis by (simp add: fill_done)
  qed
qed

lemma fill_finish_Nil:
  assumes two: "\<exists>a \<in> set all_chars. \<exists>b \<in> set all_chars. a \<noteq> b"
  shows "\<exists>e cs'. fill len all_chars cs e = Returned (cs', [])"
proof (induction "nat (len - int (length cs))" arbitrary: cs)
  case 0
  then have "\<not> int (length cs) < len" by simp
  then have "fill len all_chars cs [] = Returned (cs, [])" by (rule fill_done)
  then show ?case by blast
next
  case (Suc n)
  then have lt: "int (length cs) < len" by simp
  from two have ne: "all_chars \<noteq> []" by auto
  from two obtain c where c: "c \<in> set all_chars" "cs = [] \<or> c \<noteq> last cs"
    by (cases "cs = []") auto
  then obtain i where i: "i < length all_chars" "all_chars ! i = c"
    by (auto simp: in_set_conv_nth)
  from c have app: "append_unless_repeat cs c = cs @ [c]"
    by (auto simp: append_unless_repeat_def)
  from Suc(2) have "n = nat (len - int (length (cs @ [c])))" by simp
  from Suc(1) [OF this] obtain e cs' where
    "fill len all_chars (cs @ [c]) e = Returned (cs', [])" by blast
  with lt ne i app have "fill len all_chars cs (i # e) = Returned (cs', [])"
    by (simp add: fill_draw)
  then show ?case by blast
qed

lemma fill_can_finish:
  assumes two: "\<exists>a \<in> set all_chars. \<exists>b \<in> set all_chars. a \<noteq> b"
  shows "\<exists>e cs' t'. fill len all_chars cs (t @ e) = Returned (cs', t')"
proof (induction t arbitrary: cs)
  case Nil
  from fill_finish_Nil [OF two, of len cs] show ?case by auto
next
  case (Cons r rs)
  from two have ne: "all_chars \<noteq> []" by auto
  show ?case
  proof (cases "int (length cs) < len")
    case True
    from Cons [of "append_unless_repeat cs (all_chars ! (r mod length all_chars))"]
    show ?thesis using True ne by (simp add: fill_draw)
  next
    case False
    then show ?thesis by (simp add: fill_done)
  qed
qed

subsection \<open>The shuffle\<close>

lemma shuffle_loop_mset:
  "shuffle_loop k x t = Returned (y, t') \<Longrightarrow> k < length x \<Longrightarrow> mset y = mset x"
proof (induction k arbitrary: x t)
  case 0
  then show ?case by simp
next
  case (Suc k)
  from Suc.prems(1) obtain j t1 where j: "randbelow (Suc k + 1) t = Returned (j, t1)"
    and rest: "shuffle_loop k (x[Suc k := x ! j, j := x ! Suc k]) t1 = Returned (y, t')"
    by (auto split: outcome.splits)
  from j have "j < Suc k + 1" by (cases t) auto
  with Suc.prems(2) have jl: "j < length x" by simp
  from Suc.IH [OF rest] Suc.prems(2)
  have "mset y = mset (x[Suc k := x ! j, j := x ! Suc k])" by simp
  also from jl Suc.prems(2) have "\<dots> = mset x" by (simp add: mset_swap)
  finally show ?case .
qed

lemma shuffle_mset: "shuffle x t = Returned (y, t') \<Longrightarrow> mset y = mset x"
proof (cases "x = []")
  case True
  assume "shuffle x t = Returned (y, t')"
  with True show ?thesis by (simp add: shuffle_def)
next
  case False
  assume "shuffle x t = Returned (y, t')"
  with False show ?thesis by (auto simp: shuffle_def intro: shuffle_loop_mset)
qed

lemma shuffle_loop_returns:
  "k \<le> length t \<Longrightarrow> \<exists>y. shuffle_loop k x t = Returned (y, drop k t)"
proof (induction k arbitrary: x t)
  case 0
  then show ?case by simp
next
  case (Suc k)
  then obtain r rs where t: "t = r # rs" by (cases t) auto
  with Suc.prems Suc.IH [of rs] show ?case by simp
qed

lemma shuffle_loop_not_Raised: "shuffle_loop k x t \<noteq> Raised e"
proof (induction k arbitrary: x t)
  case 0
  then show ?case by simp
next
  case (Suc k)
  then show ?case by (cases t) simp_all
qed

lemma shuffle_loop_frame:
  "shuffle_loop k x t = Returned (y, t') \<Longrightarrow> shuffle_loop k x (t @ e) = Returned (y, t' @ e)"
proof (induction k arbitrary: x t)
  case 0
  then show ?case by simp
next
  case (Suc k)
  then show ?case by (cases t) simp_all
qed

subsection \<open>The character classes\<close>

lemma selected_pools_subset:
  "set (selected_pools lo up di sp) \<subseteq> {ascii_lowercase, ascii_uppercase, digits, special}"
  by (auto simp: selected_pools_def)

lemma selected_pools_nonempty:
  "\<forall>pool \<in> set (selected_pools lo up di sp). pool \<noteq> []"
  by (auto simp: selected_pools_def ascii_lowercase_def ascii_uppercase_def digits_def
      special_def)

lemma selected_pools_eq_Nil:
  "selected_pools lo up di sp = [] \<longleftrightarrow> \<not> lo \<and> \<not> up \<and> \<not> di \<and> \<not> sp"
  by (simp add: selected_pools_def)

lemma length_selected_pools:
  "length (selected_pools lo up di sp) =
     (if lo then 1 else 0) + (if up then 1 else 0) + (if di then 1 else 0) + (if sp then 1 else 0)"
  by (simp add: selected_pools_def)

lemma pools_disjoint:
  "set ascii_lowercase \<inter> set ascii_uppercase = {}"
  "set ascii_lowercase \<inter> set digits = {}"
  "set ascii_lowercase \<inter> set special = {}"
  "set ascii_uppercase \<inter> set digits = {}"
  "set ascii_uppercase \<inter> set special = {}"
  "set digits \<inter> set special = {}"
  by (simp_all add: ascii_lowercase_def ascii_uppercase_def digits_def special_def)

lemma selected_pools_disjoint:
  "sorted_wrt (\<lambda>p q. set p \<inter> set q = {}) (selected_pools lo up di sp)"
  by (simp add: selected_pools_def pools_disjoint)

lemma pool_two_chars:
  assumes "pool \<in> {ascii_lowercase, ascii_uppercase, digits, special}"
  shows "\<exists>a \<in> set pool. \<exists>b \<in> set pool. a \<noteq> b"
proof -
  have "hd ascii_lowercase \<in> set ascii_lowercase \<and> ascii_lowercase ! 1 \<in> set ascii_lowercase
      \<and> hd ascii_lowercase \<noteq> ascii_lowercase ! 1"
    by (simp add: ascii_lowercase_def)
  moreover have "hd ascii_uppercase \<in> set ascii_uppercase \<and> ascii_uppercase ! 1 \<in> set ascii_uppercase
      \<and> hd ascii_uppercase \<noteq> ascii_uppercase ! 1"
    by (simp add: ascii_uppercase_def)
  moreover have "hd digits \<in> set digits \<and> digits ! 1 \<in> set digits \<and> hd digits \<noteq> digits ! 1"
    by (simp add: digits_def)
  moreover have "hd special \<in> set special \<and> special ! 1 \<in> set special \<and> hd special \<noteq> special ! 1"
    by (simp add: special_def)
  ultimately have "hd pool \<in> set pool \<and> pool ! 1 \<in> set pool \<and> hd pool \<noteq> pool ! 1"
    using assms by blast
  then show ?thesis by blast
qed

lemma selected_pools_two_chars:
  assumes "lo \<or> up \<or> di \<or> sp"
  shows "\<exists>a \<in> set (concat (selected_pools lo up di sp)).
         \<exists>b \<in> set (concat (selected_pools lo up di sp)). a \<noteq> b"
proof -
  from assms obtain pool where pool: "pool \<in> set (selected_pools lo up di sp)"
    by (cases "selected_pools lo up di sp") (auto simp: selected_pools_eq_Nil)
  with selected_pools_subset [of lo up di sp]
  have "pool \<in> {ascii_lowercase, ascii_uppercase, digits, special}" by blast
  from pool_two_chars [OF this] obtain a b where "a \<in> set pool" "b \<in> set pool" "a \<noteq> b"
    by blast
  with pool have "a \<in> set (concat (selected_pools lo up di sp))"
    "b \<in> set (concat (selected_pools lo up di sp))" "a \<noteq> b" by auto
  then show ?thesis by blast
qed

lemma representatives_distinct_adj:
  "list_all2 (\<lambda>c pool. c \<in> set pool) reps pools \<Longrightarrow>
   successively (\<lambda>p q. set p \<inter> set q = {}) pools \<Longrightarrow> distinct_adj reps"
proof (induction reps pools rule: list_all2_induct)
  case Nil
  then show ?case by simp
next
  case (Cons c reps pool pools)
  show ?case
  proof (cases reps)
    case Nil
    then show ?thesis by simp
  next
    case (Cons d ds)
    with Cons.hyps(2) obtain q qs where q: "pools = q # qs" "d \<in> set q"
      by (auto simp: list_all2_Cons1)
    with Cons.prems have "set pool \<inter> set q = {}" "successively (\<lambda>p q. set p \<inter> set q = {}) pools"
      by simp_all
    with Cons.hyps(1) Cons.IH q \<open>reps = d # ds\<close> show ?thesis by auto
  qed
qed

lemma representatives_once:
  "list_all2 (\<lambda>c pool. c \<in> set pool) reps pools \<Longrightarrow>
   sorted_wrt (\<lambda>p q. set p \<inter> set q = {}) pools \<Longrightarrow>
   \<forall>pool \<in> set pools. length (filter (\<lambda>c. c \<in> set pool) reps) = 1"
proof (induction reps pools rule: list_all2_induct)
  case Nil
  then show ?case by simp
next
  case (Cons c reps p ps)
  from Cons.prems have disj: "\<forall>q \<in> set ps. set p \<inter> set q = {}"
    and sw: "sorted_wrt (\<lambda>p q. set p \<inter> set q = {}) ps" by simp_all
  from Cons.IH [OF sw] have IH: "\<forall>pool \<in> set ps. length (filter (\<lambda>c. c \<in> set pool) reps) = 1" .
  have none: "filter (\<lambda>c. c \<in> set p) reps = []"
  proof -
    have "d \<notin> set p" if "d \<in> set reps" for d
    proof -
      from that obtain i where i: "i < length reps" "reps ! i = d"
        by (auto simp: in_set_conv_nth)
      with Cons.hyps(2) have "d \<in> set (ps ! i)" "ps ! i \<in> set ps"
        by (auto dest: list_all2_nthD list_all2_lengthD)
      with disj show ?thesis by auto
    qed
    then have "\<forall>d \<in> set reps. d \<notin> set p" by blast
    then show ?thesis by (simp add: filter_empty_conv)
  qed
  show ?case
  proof
    fix pool assume "pool \<in> set (p # ps)"
    then consider "pool \<in> set ps" | "pool = p" "pool \<notin> set ps" by auto
    then show "length (filter (\<lambda>c. c \<in> set pool) (c # reps)) = 1"
    proof cases
      case 1
      with disj Cons.hyps(1) have "c \<notin> set pool" by auto
      with IH 1 show ?thesis by simp
    next
      case 2
      with none Cons.hyps(1) show ?thesis by simp
    qed
  qed
qed

subsection \<open>Seeding and filling together\<close>

lemma assemble_Returned:
  assumes "assemble len pools req t = Returned (cs, t')"
    and "0 \<le> len" and "req \<longrightarrow> int (length pools) \<le> len"
  shows "int (length cs) = len"
    and "req \<Longrightarrow> \<exists>reps ys. cs = reps @ ys \<and> list_all2 (\<lambda>c pool. c \<in> set pool) reps pools"
    and "req \<Longrightarrow> len = int (length pools) \<Longrightarrow> list_all2 (\<lambda>c pool. c \<in> set pool) cs pools"
    and "successively (\<lambda>p q. set p \<inter> set q = {}) pools \<Longrightarrow> distinct_adj cs"
proof -
  from assms(1) obtain seeded t1 where
    s: "(if req then seed_chars pools [] t else Returned ([], t)) = Returned (seeded, t1)"
    and f: "fill len (concat pools) seeded t1 = Returned (cs, t')"
    by (auto simp: assemble_def split: outcome.splits)
  have reps: "list_all2 (\<lambda>c pool. c \<in> set pool) seeded pools" if req
    using s that seed_chars_Returned [of pools "[]" t seeded t1] by auto
  have nil: "seeded = []" if "\<not> req" using s that by simp
  have le: "int (length seeded) \<le> len"
  proof (cases req)
    case True
    with reps assms(3) show ?thesis by (auto dest: list_all2_lengthD)
  next
    case False
    with nil assms(2) show ?thesis by simp
  qed
  from fill_length [OF f le] show len: "int (length cs) = len" .
  from fill_prefix [OF f] obtain ys where ys: "cs = seeded @ ys" by blast
  with reps show "\<exists>reps ys. cs = reps @ ys \<and> list_all2 (\<lambda>c pool. c \<in> set pool) reps pools"
    if req using that by blast
  show "list_all2 (\<lambda>c pool. c \<in> set pool) cs pools" if req "len = int (length pools)"
  proof -
    from reps that have "length seeded = length pools" by (auto dest: list_all2_lengthD)
    with len that ys have "ys = []" by simp
    with ys reps that show ?thesis by simp
  qed
  show "distinct_adj cs" if "successively (\<lambda>p q. set p \<inter> set q = {}) pools"
  proof -
    have "distinct_adj seeded"
    proof (cases req)
      case True
      with reps that show ?thesis by (auto intro: representatives_distinct_adj)
    next
      case False
      with nil show ?thesis by simp
    qed
    with f show ?thesis by (rule fill_distinct_adj)
  qed
qed

lemma assemble_not_Raised:
  "pools \<noteq> [] \<Longrightarrow> \<forall>pool \<in> set pools. pool \<noteq> [] \<Longrightarrow> assemble len pools req t \<noteq> Raised e"
proof -
  assume ne: "pools \<noteq> []" and each: "\<forall>pool \<in> set pools. pool \<noteq> []"
  then have "concat pools \<noteq> []" by (cases pools) auto
  with each show ?thesis
    by (auto simp: assemble_def seed_chars_not_Raised fill_not_Raised split: outcome.splits)
qed

lemma assemble_frame:
  "assemble len pools req t = Returned (cs, t') \<Longrightarrow>
   assemble len pools req (t @ e) = Returned (cs, t' @ e)"
  by (auto simp: assemble_def seed_chars_frame fill_frame split: outcome.splits if_splits)

lemma seed_chars_can_return:
  assumes "\<forall>pool \<in> set pools. pool \<noteq> []"
  shows "\<exists>e cs' t'. seed_chars pools cs (t @ e) = Returned (cs', t')"
proof -
  have "length pools \<le> length (t @ replicate (length pools) 0)" by simp
  from seed_chars_returns [OF assms this] show ?thesis by blast
qed

lemma assemble_can_return:
  assumes each: "\<forall>pool \<in> set pools. pool \<noteq> []"
    and two: "\<exists>a \<in> set (concat pools). \<exists>b \<in> set (concat pools). a \<noteq> b"
  shows "\<exists>e cs t'. assemble len pools req (t @ e) = Returned (cs, t')"
proof -
  obtain e1 seeded t1 where
    s: "(if req then seed_chars pools [] (t @ e1) else Returned ([], t @ e1)) = Returned (seeded, t1)"
    using seed_chars_can_return [OF each, of "[]" t] by (cases req) auto
  from fill_can_finish [OF two, of len seeded t1] obtain e2 cs t' where
    f: "fill len (concat pools) seeded (t1 @ e2) = Returned (cs, t')" by blast
  have "assemble len pools req ((t @ e1) @ e2) = Returned (cs, t')"
  proof (cases req)
    case True
    with s have "seed_chars pools [] (t @ e1) = Returned (seeded, t1)" by simp
    then have "seed_chars pools [] ((t @ e1) @ e2) = Returned (seeded, t1 @ e2)"
      by (rule seed_chars_frame)
    with f True show ?thesis by (simp add: assemble_def del: append_assoc)
  next
    case False
    with s f show ?thesis by (simp add: assemble_def del: append_assoc)
  qed
  then have "assemble len pools req (t @ (e1 @ e2)) = Returned (cs, t')" by simp
  then show ?thesis by blast
qed

subsection \<open>The whole generator\<close>

lemma shuffle_not_Raised: "shuffle x t \<noteq> Raised e"
  by (simp add: shuffle_def shuffle_loop_not_Raised)

lemma shuffle_frame:
  "shuffle x t = Returned (y, t') \<Longrightarrow> shuffle x (t @ e) = Returned (y, t' @ e)"
  by (simp add: shuffle_def shuffle_loop_frame)

lemma shuffle_returns:
  "length x - 1 \<le> length t \<Longrightarrow> \<exists>y. shuffle x t = Returned (y, drop (length x - 1) t)"
  by (simp add: shuffle_def shuffle_loop_returns)

lemma generate_run:
  assumes "1 \<le> len" and "lo \<or> up \<or> di \<or> sp"
    and "req \<longrightarrow> int (length (selected_pools lo up di sp)) \<le> len"
  shows "generate_random_password len lo up di sp req t =
     (case assemble len (selected_pools lo up di sp) req t of
        Returned (cs, t') \<Rightarrow>
          (case shuffle cs t' of
             Returned (shuffled, t'') \<Rightarrow> Returned shuffled
           | Raised e \<Rightarrow> Raised e
           | OutOfDraws \<Rightarrow> OutOfDraws)
      | Raised e \<Rightarrow> Raised e
      | OutOfDraws \<Rightarrow> OutOfDraws)"
  using assms by (auto simp: generate_random_password_def Let_def selected_pools_eq_Nil)

lemma generate_Returned:
  assumes "1 \<le> len" and "lo \<or> up \<or> di \<or> sp"
    and "req \<longrightarrow> int (length (selected_pools lo up di sp)) \<le> len"
    and "generate_random_password len lo up di sp req t = Returned pw"
  shows "\<exists>cs t1 t2. assemble len (selected_pools lo up di sp) req t = Returned (cs, t1) \<and>
           shuffle cs t1 = Returned (pw, t2)"
  using assms(4) unfolding generate_run [OF assms(1-3)]
  by (auto split: outcome.splits)

lemma generate_not_Raised:
  assumes "1 \<le> len" and "lo \<or> up \<or> di \<or> sp"
    and "req \<longrightarrow> int (length (selected_pools lo up di sp)) \<le> len"
  shows "generate_random_password len lo up di sp req t \<noteq> Raised e"
proof -
  from assms(2) have "selected_pools lo up di sp \<noteq> []" by (simp add: selected_pools_eq_Nil)
  then have "assemble len (selected_pools lo up di sp) req t \<noteq> Raised e" for e
    using selected_pools_nonempty by (rule assemble_not_Raised)
  then show ?thesis unfolding generate_run [OF assms]
    by (auto simp: shuffle_not_Raised split: outcome.splits)
qed

lemma generate_can_return:
  assumes "1 \<le> len" and "lo \<or> up \<or> di \<or> sp"
    and "req \<longrightarrow> int (length (selected_pools lo up di sp)) \<le> len"
  shows "\<exists>e pw. generate_random_password len lo up di sp req (t @ e) = Returned pw"
proof -
  from assemble_can_return [OF selected_pools_nonempty selected_pools_two_chars [OF assms(2)]]
  obtain e1 cs t1 where a: "assemble len (selected_pools lo up di sp) req (t @ e1) = Returned (cs, t1)"
    by blast
  define e2 where "e2 = replicate (length cs - 1) (0 :: nat)"
  have "length cs - 1 \<le> length (t1 @ e2)" by (simp add: e2_def)
  from shuffle_returns [OF this] obtain pw where
    s: "shuffle cs (t1 @ e2) = Returned (pw, drop (length cs - 1) (t1 @ e2))" by blast
  from assemble_frame [OF a, of e2]
  have "assemble len (selected_pools lo up di sp) req (t @ (e1 @ e2)) = Returned (cs, t1 @ e2)"
    by simp
  with s have "generate_random_password len lo up di sp req (t @ (e1 @ e2)) = Returned pw"
    unfolding generate_run [OF assms] by simp
  then show ?thesis by blast
qed


lemma assemble_distinct_adj:
  assumes "assemble len pools req t = Returned (cs, t')"
    and "successively (\<lambda>p q. set p \<inter> set q = {}) pools"
  shows "distinct_adj cs"
proof -
  from assms(1) obtain seeded t1 where
    s: "(if req then seed_chars pools [] t else Returned ([], t)) = Returned (seeded, t1)"
    and f: "fill len (concat pools) seeded t1 = Returned (cs, t')"
    by (auto simp: assemble_def split: outcome.splits)
  have "distinct_adj seeded"
  proof (cases req)
    case True
    with s seed_chars_Returned [of pools "[]" t seeded t1]
    have "list_all2 (\<lambda>c pool. c \<in> set pool) seeded pools" by auto
    with assms(2) show ?thesis by (auto intro: representatives_distinct_adj)
  next
    case False
    with s show ?thesis by simp
  qed
  with f show ?thesis by (rule fill_distinct_adj)
qed

section \<open>The search space\<close>

text \<open>
  C5. \<open>calculate_search_space_size\<close> is 0 for an empty alphabet or a length of at most 0,
  and otherwise the exact integer power of the alphabet size; 62 characters at length 8
  give 218340105584896.
\<close>

theorem search_space_size_exact:
  "(all_chars = [] \<or> len \<le> 0 \<longrightarrow> calculate_search_space_size len all_chars = 0) \<and>
   (all_chars \<noteq> [] \<and> 0 < len \<longrightarrow>
      calculate_search_space_size len all_chars = int (length all_chars) ^ nat len) \<and>
   calculate_search_space_size 8 (ascii_lowercase @ ascii_uppercase @ digits)
     = 218340105584896"
  by (simp add: calculate_search_space_size_def ascii_lowercase_def ascii_uppercase_def
      digits_def)

theorem search_space_size_exact_witness:
  "calculate_search_space_size 0 ''ab'' = 0 \<and>
   calculate_search_space_size 5 [] = 0 \<and>
   calculate_search_space_size 3 ''ab'' = 8"
  using search_space_size_exact [of "''ab''" 0] search_space_size_exact [of "[]" 5]
    search_space_size_exact [of "''ab''" 3]
  by simp

section \<open>The generated password\<close>

text \<open>
  C2. For a configuration with a length of at least 1, at least one class selected and,
  when each class is required, a length of at least the number of selected classes:
  every password the generator returns has exactly \<open>len\<close> characters, the generator
  raises no error, and whatever draws have been made so far, some further draws make it
  return (only an endless run of rejected draws keeps it from returning).
\<close>

theorem generate_length:
  assumes "1 \<le> len" and "lo \<or> up \<or> di \<or> sp"
    and "req \<longrightarrow> int (length (selected_pools lo up di sp)) \<le> len"
  shows "(\<forall>t pw. generate_random_password len lo up di sp req t = Returned pw \<longrightarrow>
            int (length pw) = len) \<and>
         (\<forall>t e. generate_random_password len lo up di sp req t \<noteq> Raised e) \<and>
         (\<forall>t. \<exists>e pw. generate_random_password len lo up di sp req (t @ e) = Returned pw)"
proof (intro conjI allI impI)
  fix t pw
  assume "generate_random_password len lo up di sp req t = Returned pw"
  from generate_Returned [OF assms this] obtain cs t1 t2 where
    a: "assemble len (selected_pools lo up di sp) req t = Returned (cs, t1)"
    and s: "shuffle cs t1 = Returned (pw, t2)" by blast
  from assms(1) have "0 \<le> len" by simp
  from assemble_Returned(1) [OF a this assms(3)] have "int (length cs) = len" .
  moreover from shuffle_mset [OF s] have "length pw = length cs" by (rule mset_eq_length)
  ultimately show "int (length pw) = len" by simp
next
  fix t e
  show "generate_random_password len lo up di sp req t \<noteq> Raised e"
    by (rule generate_not_Raised [OF assms])
next
  fix t
  show "\<exists>e pw. generate_random_password len lo up di sp req (t @ e) = Returned pw"
    by (rule generate_can_return [OF assms])
qed

theorem generate_length_witness:
  "generate_random_password 5 True True True True True [3, 4, 5, 6, 7, 7, 0, 1, 2]
     = Returned ''h&Ed5'' \<and> int (length ''h&Ed5'') = 5"
proof -
  have run: "generate_random_password 5 True True True True True [3, 4, 5, 6, 7, 7, 0, 1, 2]
     = Returned ''h&Ed5''"
    by code_simp
  have h1: "(1 :: int) \<le> 5" and h2: "True \<or> True \<or> True \<or> True" by simp_all
  have h3: "True \<longrightarrow> int (length (selected_pools True True True True)) \<le> 5"
    by (simp add: selected_pools_def)
  from generate_length [OF h1 h2 h3] run show ?thesis
    by blast
qed

text \<open>
  C3. For a valid configuration that requires each class, every returned password holds
  a character of each selected class's pool; and whatever draws have been made so far,
  some further draws make the generator return.
\<close>

theorem generate_covers_each_class:
  assumes "1 \<le> len" and "lo \<or> up \<or> di \<or> sp"
    and "int (length (selected_pools lo up di sp)) \<le> len"
  shows "(\<forall>t pw. generate_random_password len lo up di sp True t = Returned pw \<longrightarrow>
            (lo \<longrightarrow> (\<exists>c \<in> set pw. c \<in> set ascii_lowercase)) \<and>
            (up \<longrightarrow> (\<exists>c \<in> set pw. c \<in> set ascii_uppercase)) \<and>
            (di \<longrightarrow> (\<exists>c \<in> set pw. c \<in> set digits)) \<and>
            (sp \<longrightarrow> (\<exists>c \<in> set pw. c \<in> set special))) \<and>
         (\<forall>t. \<exists>e pw. generate_random_password len lo up di sp True (t @ e) = Returned pw)"
proof (intro conjI allI impI)
  fix t
  from assms show "\<exists>e pw. generate_random_password len lo up di sp True (t @ e) = Returned pw"
    by (intro generate_can_return) simp_all
next
  fix t pw
  assume run: "generate_random_password len lo up di sp True t = Returned pw"
  have valid: "True \<longrightarrow> int (length (selected_pools lo up di sp)) \<le> len"
    using assms(3) by simp
  from generate_Returned [OF assms(1,2) valid run] obtain cs t1 t2 where
    a: "assemble len (selected_pools lo up di sp) True t = Returned (cs, t1)"
    and s: "shuffle cs t1 = Returned (pw, t2)" by blast
  from assms(1) have "0 \<le> len" by simp
  from assemble_Returned(2) [OF a this valid] obtain reps ys where
    cs: "cs = reps @ ys"
    and reps: "list_all2 (\<lambda>c pool. c \<in> set pool) reps (selected_pools lo up di sp)"
    by blast
  from shuffle_mset [OF s] have set_pw: "set pw = set cs" by (rule mset_eq_setD)
  have cover: "\<exists>c \<in> set pw. c \<in> set pool" if "pool \<in> set (selected_pools lo up di sp)" for pool
  proof -
    from that obtain i where i: "i < length (selected_pools lo up di sp)"
      "selected_pools lo up di sp ! i = pool" by (auto simp: in_set_conv_nth)
    with reps have "reps ! i \<in> set pool" "i < length reps"
      by (auto dest: list_all2_nthD2 list_all2_lengthD)
    with cs set_pw show ?thesis by (auto simp: nth_append)
  qed
  {
    assume lo
    then show "\<exists>c \<in> set pw. c \<in> set ascii_lowercase"
      by (intro cover) (simp add: selected_pools_def)
  next
    assume up
    then show "\<exists>c \<in> set pw. c \<in> set ascii_uppercase"
      by (intro cover) (simp add: selected_pools_def)
  next
    assume di
    then show "\<exists>c \<in> set pw. c \<in> set digits"
      by (intro cover) (simp add: selected_pools_def)
  next
    assume sp
    then show "\<exists>c \<in> set pw. c \<in> set special"
      by (intro cover) (simp add: selected_pools_def)
  }
qed

theorem generate_covers_each_class_witness:
  "generate_random_password 4 True True True True True [3, 4, 5, 6, 0, 1, 2] = Returned ''5&Ed'' \<and>
   (\<exists>c \<in> set ''5&Ed''. c \<in> set ascii_lowercase) \<and>
   (\<exists>c \<in> set ''5&Ed''. c \<in> set ascii_uppercase) \<and>
   (\<exists>c \<in> set ''5&Ed''. c \<in> set digits) \<and>
   (\<exists>c \<in> set ''5&Ed''. c \<in> set special)"
proof -
  have run: "generate_random_password 4 True True True True True [3, 4, 5, 6, 0, 1, 2]
     = Returned ''5&Ed''"
    by code_simp
  have h1: "(1 :: int) \<le> 4" and h2: "True \<or> True \<or> True \<or> True" by simp_all
  have h3: "int (length (selected_pools True True True True)) \<le> 4"
    by (simp add: selected_pools_def)
  from generate_covers_each_class [OF h1 h2 h3] run show ?thesis
    by blast
qed

text \<open>
  C9. When each class is required and the length equals the number of selected classes,
  every returned password is a permutation of one representative per selected class, so
  it holds exactly one character of each selected pool; and the generator returns on
  every tape with at least \<open>2 * n - 1\<close> draws, \<open>n\<close> the number of selected classes.
\<close>

theorem generate_one_per_class:
  assumes "lo \<or> up \<or> di \<or> sp"
    and "len = int (length (selected_pools lo up di sp))"
  shows "(\<forall>t pw. generate_random_password len lo up di sp True t = Returned pw \<longrightarrow>
            (\<exists>reps. list_all2 (\<lambda>c pool. c \<in> set pool) reps (selected_pools lo up di sp) \<and>
                    mset pw = mset reps) \<and>
            (\<forall>pool \<in> set (selected_pools lo up di sp).
               length (filter (\<lambda>c. c \<in> set pool) pw) = 1)) \<and>
         (\<forall>t. 2 * length (selected_pools lo up di sp) - 1 \<le> length t \<longrightarrow>
            (\<exists>pw. generate_random_password len lo up di sp True t = Returned pw))"
proof (intro conjI allI impI)
  let ?pools = "selected_pools lo up di sp"
  from assms(1) have ne: "?pools \<noteq> []" by (simp add: selected_pools_eq_Nil)
  with assms(2) have len1: "1 \<le> len" by (cases ?pools) simp_all
  have valid: "True \<longrightarrow> int (length ?pools) \<le> len" using assms(2) by simp
  {
    fix t pw
    assume run: "generate_random_password len lo up di sp True t = Returned pw"
    from generate_Returned [OF len1 assms(1) valid run] obtain cs t1 t2 where
      a: "assemble len ?pools True t = Returned (cs, t1)"
      and s: "shuffle cs t1 = Returned (pw, t2)" by blast
    from len1 have "0 \<le> len" by simp
    from assemble_Returned(3) [OF a this valid _ assms(2)]
    have reps: "list_all2 (\<lambda>c pool. c \<in> set pool) cs ?pools" by simp
    from shuffle_mset [OF s] have m: "mset pw = mset cs" .
    with reps show "\<exists>reps. list_all2 (\<lambda>c pool. c \<in> set pool) reps ?pools \<and> mset pw = mset reps"
      by blast
    have "length (filter P pw) = length (filter P cs)" for P
      using m by (metis mset_filter size_mset)
    with representatives_once [OF reps selected_pools_disjoint]
    show "\<forall>pool \<in> set ?pools. length (filter (\<lambda>c. c \<in> set pool) pw) = 1"
      by simp
  }
  {
    fix t :: tape
    assume long: "2 * length ?pools - 1 \<le> length t"
    with ne have l1: "length ?pools \<le> length t" by (cases ?pools) simp_all
    from seed_chars_returns [OF selected_pools_nonempty l1] obtain cs where
      seed: "seed_chars ?pools [] t = Returned (cs, drop (length ?pools) t)" by blast
    from seed_chars_Returned [OF seed] have lcs: "length cs = length ?pools"
      by (auto dest: list_all2_lengthD)
    with assms(2) have "\<not> int (length cs) < len" by simp
    then have "fill len (concat ?pools) cs (drop (length ?pools) t)
        = Returned (cs, drop (length ?pools) t)" by (rule fill_done)
    with seed have a: "assemble len ?pools True t = Returned (cs, drop (length ?pools) t)"
      by (simp add: assemble_def)
    from long lcs have "length cs - 1 \<le> length (drop (length ?pools) t)" by simp
    from shuffle_returns [OF this] obtain pw where
      "shuffle cs (drop (length ?pools) t)
         = Returned (pw, drop (length cs - 1) (drop (length ?pools) t))" by blast
    with a have "generate_random_password len lo up di sp True t = Returned pw"
      unfolding generate_run [OF len1 assms(1) valid] by simp
    then show "\<exists>pw. generate_random_password len lo up di sp True t = Returned pw" by blast
  }
qed

theorem generate_one_per_class_witness:
  "generate_random_password 2 True False True False True [3, 4, 5] = Returned ''d4'' \<and>
   length (filter (\<lambda>c. c \<in> set ascii_lowercase) ''d4'') = 1 \<and>
   length (filter (\<lambda>c. c \<in> set digits) ''d4'') = 1"
proof -
  have run: "generate_random_password 2 True False True False True [3, 4, 5] = Returned ''d4''"
    by code_simp
  have h1: "True \<or> False \<or> True \<or> False" by simp
  have h2: "2 = int (length (selected_pools True False True False))"
    by (simp add: selected_pools_def)
  have m1: "ascii_lowercase \<in> set (selected_pools True False True False)"
    and m2: "digits \<in> set (selected_pools True False True False)"
    by (simp_all add: selected_pools_def)
  note once = generate_one_per_class [OF h1 h2, THEN conjunct1, rule_format, OF run,
      THEN conjunct2, rule_format]
  from run once [OF m1] once [OF m2] show ?thesis by (intro conjI)
qed

section \<open>Adjacent characters\<close>

text \<open>
  C10. Before the shuffle the assembled list never has two equal neighbours: the four
  pools are pairwise disjoint, so the representatives seeded so far, after any number of
  pools, are distinct from their neighbours; one iteration of the fill loop keeps the
  property and leaves the list unchanged when the drawn character equals the last one;
  and so the list handed to the shuffle has the property.
\<close>

theorem no_adjacent_repeat_before_shuffle:
  "sorted_wrt (\<lambda>p q. set p \<inter> set q = {}) [ascii_lowercase, ascii_uppercase, digits, special] \<and>
   (\<forall>k t cs t'. seed_chars (take k (selected_pools lo up di sp)) [] t = Returned (cs, t') \<longrightarrow>
      distinct_adj cs) \<and>
   (\<forall>cs c. distinct_adj cs \<longrightarrow> distinct_adj (append_unless_repeat cs c)) \<and>
   (\<forall>cs c. cs \<noteq> [] \<and> c = last cs \<longrightarrow> append_unless_repeat cs c = cs) \<and>
   (\<forall>len req t cs t'. assemble len (selected_pools lo up di sp) req t = Returned (cs, t') \<longrightarrow>
      distinct_adj cs)"
proof (intro conjI allI impI)
  show "sorted_wrt (\<lambda>p q. set p \<inter> set q = {}) [ascii_lowercase, ascii_uppercase, digits, special]"
    by (simp add: pools_disjoint)
next
  fix k t cs t'
  assume seed: "seed_chars (take k (selected_pools lo up di sp)) [] t = Returned (cs, t')"
  have "successively (\<lambda>p q. set p \<inter> set q = {}) (take k (selected_pools lo up di sp) @
      drop k (selected_pools lo up di sp))"
    using selected_pools_disjoint [of lo up di sp] by (simp add: successively_if_sorted_wrt)
  then have "successively (\<lambda>p q. set p \<inter> set q = {}) (take k (selected_pools lo up di sp))"
    unfolding successively_append_iff by blast
  moreover from seed_chars_Returned [OF seed]
  have "list_all2 (\<lambda>c pool. c \<in> set pool) cs (take k (selected_pools lo up di sp))" by auto
  ultimately show "distinct_adj cs" by (auto intro: representatives_distinct_adj)
next
  fix cs :: string and c :: char
  assume "distinct_adj cs"
  then show "distinct_adj (append_unless_repeat cs c)" by (rule distinct_adj_append_unless_repeat)
next
  fix cs :: string and c
  assume "cs \<noteq> [] \<and> c = last cs"
  then show "append_unless_repeat cs c = cs" by (simp add: append_unless_repeat_def)
next
  fix len req t cs t'
  assume "assemble len (selected_pools lo up di sp) req t = Returned (cs, t')"
  then show "distinct_adj cs"
    using selected_pools_disjoint [of lo up di sp]
    by (auto intro: assemble_distinct_adj successively_if_sorted_wrt)
qed

theorem no_adjacent_repeat_before_shuffle_witness:
  "assemble 6 (selected_pools True True True True) True [3, 4, 5, 6, 6, 7, 7, 8, 9]
     = Returned (''dE5&gh'', [7, 8, 9]) \<and>
   distinct_adj ''dE5&gh'' \<and>
   seed_chars (take 2 (selected_pools True True True True)) [] [3, 4, 5, 6, 6, 7, 7, 8, 9]
     = Returned (''dE'', [5, 6, 6, 7, 7, 8, 9]) \<and>
   distinct_adj ''dE'' \<and>
   distinct_adj (append_unless_repeat ''dE5&g'' (CHR ''g'')) \<and>
   append_unless_repeat ''dE5&g'' (CHR ''g'') = ''dE5&g''"
proof -
  have run: "assemble 6 (selected_pools True True True True) True [3, 4, 5, 6, 6, 7, 7, 8, 9]
     = Returned (''dE5&gh'', [7, 8, 9])"
    by code_simp
  have seed: "seed_chars (take 2 (selected_pools True True True True)) [] [3, 4, 5, 6, 6, 7, 7, 8, 9]
     = Returned (''dE'', [5, 6, 6, 7, 7, 8, 9])"
    by code_simp
  have last: "''dE5&g'' \<noteq> [] \<and> CHR ''g'' = last ''dE5&g''" by simp
  note inv = no_adjacent_repeat_before_shuffle [of True True True True]
  note seeds = inv [THEN conjunct2, THEN conjunct1, rule_format]
  note step = inv [THEN conjunct2, THEN conjunct2, THEN conjunct1, rule_format]
  note reject = inv [THEN conjunct2, THEN conjunct2, THEN conjunct2, THEN conjunct1, rule_format]
  note final = inv [THEN conjunct2, THEN conjunct2, THEN conjunct2, THEN conjunct2, rule_format]
  have d1: "distinct_adj ''dE5&gh''" by (rule final [OF run])
  have d2: "distinct_adj ''dE''" by (rule seeds [OF seed])
  have rej: "append_unless_repeat ''dE5&g'' (CHR ''g'') = ''dE5&g''" by (rule reject [OF last])
  have "distinct_adj ''dE5&g''" by simp
  then have d3: "distinct_adj (append_unless_repeat ''dE5&g'' (CHR ''g''))" by (rule step)
  from run d1 seed d2 d3 rej show ?thesis by (intro conjI)
qed

text \<open>
  C1. The claim is that a returned password of length at least 2 never has two equal
  neighbours. The fill loop keeps that property, but the shuffle that follows does not:
  with length 3, all four classes and no requirement, the draws 0, 1, 0 assemble
  \<open>aba\<close>, and the shuffle draws 1, 1 turn it into \<open>aab\<close>.
\<close>

theorem adjacent_repeat_after_shuffle:
  "generate_random_password 3 True True True True False [0, 1, 0, 1, 1] = Returned ''aab'' \<and>
   \<not> distinct_adj ''aab''"
  by code_simp

section \<open>Rejected configurations\<close>

text \<open>
  C4, as stated, at length 0: with no class selected the generator raises the
  length error, not the no-character-classes error, since the length is checked first.
\<close>

theorem no_classes_length_zero:
  "generate_random_password 0 False False False False False [] = Raised LengthBelowOne \<and>
   generate_random_password 0 False False False False False [] \<noteq> Raised NoCharacterTypes"
  by (simp add: generate_random_password_def)

text \<open>
  C4, amended. With all four class flags false the generator raises the
  no-character-classes error for every length of at least 1, and the length error for
  every length below 1.
\<close>

theorem no_classes_error:
  "(1 \<le> len \<longrightarrow>
      generate_random_password len False False False False req t = Raised NoCharacterTypes) \<and>
   (len < 1 \<longrightarrow>
      generate_random_password len False False False False req t = Raised LengthBelowOne)"
  by (simp add: generate_random_password_def selected_pools_def)

theorem no_classes_error_witness:
  "generate_random_password 12 False False False False True [4, 2] = Raised NoCharacterTypes \<and>
   generate_random_password (- 3) False False False False True [4, 2] = Raised LengthBelowOne"
  using no_classes_error [of 12 True "[4, 2]"] no_classes_error [of "- 3" True "[4, 2]"]
  by simp

text \<open>
  C7, as stated, at length 0: with lowercase selected and each class required, the length
  is below the number of selected classes, yet the generator raises the length error and
  not the too-short error.
\<close>

theorem too_short_length_zero:
  "generate_random_password 0 True False False False True [] = Raised LengthBelowOne \<and>
   generate_random_password 0 True False False False True [] \<noteq>
     Raised (TooShortForCategories 0 (length (selected_pools True False False False)))"
  by (simp add: generate_random_password_def)

text \<open>
  C7, amended. With each class required, at least one class selected and a length below
  the number of selected classes, the generator raises the too-short error when the
  length is at least 1, and the length error when the length is below 1.
\<close>

theorem too_short_error:
  assumes "req" and "lo \<or> up \<or> di \<or> sp"
    and "len < int (length (selected_pools lo up di sp))"
  shows "(1 \<le> len \<longrightarrow> generate_random_password len lo up di sp req t =
            Raised (TooShortForCategories len (length (selected_pools lo up di sp)))) \<and>
         (len < 1 \<longrightarrow> generate_random_password len lo up di sp req t = Raised LengthBelowOne)"
  using assms by (auto simp: generate_random_password_def Let_def selected_pools_eq_Nil)

theorem too_short_error_witness:
  "generate_random_password 2 True True True True True [7, 7] =
     Raised (TooShortForCategories 2 4) \<and>
   generate_random_password 0 True True True True True [7, 7] = Raised LengthBelowOne"
proof -
  have n: "length (selected_pools True True True True) = 4"
    by (simp add: selected_pools_def)
  have h1: True and h2: "True \<or> True \<or> True \<or> True" by simp_all
  have h3: "(2 :: int) < int (length (selected_pools True True True True))"
    and h4: "(0 :: int) < int (length (selected_pools True True True True))"
    by (simp_all add: n)
  from too_short_error [OF h1 h2 h3, of "[7, 7]"] too_short_error [OF h1 h2 h4, of "[7, 7]"] n
  show ?thesis by simp
qed

section \<open>The yes/no prompt\<close>

text \<open>
  C8. \<open>get_bool_input\<close> returns True when the stripped, lower-cased line is \<open>y\<close> or
  \<open>yes\<close>, False when it is \<open>n\<close> or \<open>no\<close>, and the default otherwise; in \<open>main\<close> an
  unrecognised line gives True for each of the four class flags and False for
  \<open>require_each\<close>.
\<close>

theorem get_bool_input_answers:
  "(lower (strip line) \<in> {''y'', ''yes''} \<longrightarrow> get_bool_input prompt dflt line = True) \<and>
   (lower (strip line) \<in> {''n'', ''no''} \<longrightarrow> get_bool_input prompt dflt line = False) \<and>
   (lower (strip line) \<notin> {''y'', ''yes'', ''n'', ''no''} \<longrightarrow>
      get_bool_input prompt dflt line = dflt) \<and>
   (lower (strip l1) \<notin> {''y'', ''yes'', ''n'', ''no''} \<longrightarrow>
      include_lower (read_flags l1 l2 l3 l4 l5) = True) \<and>
   (lower (strip l2) \<notin> {''y'', ''yes'', ''n'', ''no''} \<longrightarrow>
      include_upper (read_flags l1 l2 l3 l4 l5) = True) \<and>
   (lower (strip l3) \<notin> {''y'', ''yes'', ''n'', ''no''} \<longrightarrow>
      include_digits (read_flags l1 l2 l3 l4 l5) = True) \<and>
   (lower (strip l4) \<notin> {''y'', ''yes'', ''n'', ''no''} \<longrightarrow>
      include_special (read_flags l1 l2 l3 l4 l5) = True) \<and>
   (lower (strip l5) \<notin> {''y'', ''yes'', ''n'', ''no''} \<longrightarrow>
      require_each (read_flags l1 l2 l3 l4 l5) = False)"
  by (simp add: get_bool_input_def read_flags_def Let_def)

theorem get_bool_input_answers_witness:
  "get_bool_input ''Include numbers (0-9)? (y/n): '' False '' YeS  '' = True \<and>
   get_bool_input ''Include numbers (0-9)? (y/n): '' True ''No'' = False \<and>
   get_bool_input ''Include numbers (0-9)? (y/n): '' True ''maybe'' = True \<and>
   get_bool_input ''Include numbers (0-9)? (y/n): '' False ''maybe'' = False \<and>
   include_lower (read_flags [] ''x'' ''?'' ''nope'' ''yeah'') = True \<and>
   include_upper (read_flags [] ''x'' ''?'' ''nope'' ''yeah'') = True \<and>
   include_digits (read_flags [] ''x'' ''?'' ''nope'' ''yeah'') = True \<and>
   include_special (read_flags [] ''x'' ''?'' ''nope'' ''yeah'') = True \<and>
   require_each (read_flags [] ''x'' ''?'' ''nope'' ''yeah'') = False"
proof -
  have yes: "lower (strip '' YeS  '') \<in> {''y'', ''yes''}" by code_simp
  have no: "lower (strip ''No'') \<in> {''n'', ''no''}" by code_simp
  have other: "lower (strip ''maybe'') \<notin> {''y'', ''yes'', ''n'', ''no''}" by code_simp
  have l1: "lower (strip []) \<notin> {''y'', ''yes'', ''n'', ''no''}" by code_simp
  have l2: "lower (strip ''x'') \<notin> {''y'', ''yes'', ''n'', ''no''}" by code_simp
  have l3: "lower (strip ''?'') \<notin> {''y'', ''yes'', ''n'', ''no''}" by code_simp
  have l4: "lower (strip ''nope'') \<notin> {''y'', ''yes'', ''n'', ''no''}" by code_simp
  have l5: "lower (strip ''yeah'') \<notin> {''y'', ''yes'', ''n'', ''no''}" by code_simp
  from yes get_bool_input_answers [of "'' YeS  ''" "''Include numbers (0-9)? (y/n): ''" False]
  have "get_bool_input ''Include numbers (0-9)? (y/n): '' False '' YeS  '' = True" by blast
  moreover from no get_bool_input_answers [of "''No''" "''Include numbers (0-9)? (y/n): ''" True]
  have "get_bool_input ''Include numbers (0-9)? (y/n): '' True ''No'' = False" by blast
  moreover from other
    get_bool_input_answers [of "''maybe''" "''Include numbers (0-9)? (y/n): ''" True]
  have "get_bool_input ''Include numbers (0-9)? (y/n): '' True ''maybe'' = True" by blast
  moreover from other
    get_bool_input_answers [of "''maybe''" "''Include numbers (0-9)? (y/n): ''" False]
  have "get_bool_input ''Include numbers (0-9)? (y/n): '' False ''maybe'' = False" by blast
  moreover from l1 l2 l3 l4 l5
    get_bool_input_answers [of _ _ _ "[]" "''x''" "''?''" "''nope''" "''yeah''"]
  have "include_lower (read_flags [] ''x'' ''?'' ''nope'' ''yeah'') = True \<and>
   include_upper (read_flags [] ''x'' ''?'' ''nope'' ''yeah'') = True \<and>
   include_digits (read_flags [] ''x'' ''?'' ''nope'' ''yeah'') = True \<and>
   include_special (read_flags [] ''x'' ''?'' ''nope'' ''yeah'') = True \<and>
   require_each (read_flags [] ''x'' ''?'' ''nope'' ''yeah'') = False" by blast
  ultimately show ?thesis by (elim conjE, intro conjI)
qed

end
